theory Spec2Isabelle
  imports Main "HOL-Library.Word"
begin

section \<open>The BLE console transport of src/main.c\<close>

text \<open>
  The development embeds the REPL transport of \<^verbatim>\<open>src/main.c\<close>: the two ring buffers
  \<^verbatim>\<open>rx\<close> and \<^verbatim>\<open>tx\<close>, the console functions \<^verbatim>\<open>mp_hal_stdout_tx_strn\<close> and
  \<^verbatim>\<open>mp_hal_stdin_rx_chr\<close>, the sender \<^verbatim>\<open>ble_send_pending_data\<close> and the BLE
  part of the event handler \<^verbatim>\<open>SWI2_IRQHandler\<close>.
\<close>

subsection \<open>Machine types and constants\<close>

type_synonym uint8_t = "8 word"
type_synonym uint16_t = "16 word"
type_synonym uint32_t = "32 word"

text \<open>\<^verbatim>\<open>#define MAX_MTU_LENGTH 128\<close> and \<^verbatim>\<open>#define RING_BUFFER_LENGTH (1024 + 45)\<close>.\<close>

definition MAX_MTU_LENGTH :: uint16_t where
  "MAX_MTU_LENGTH = 128"

definition RING_BUFFER_LENGTH :: uint16_t where
  "RING_BUFFER_LENGTH = 1024 + 45"

text \<open>
  The error codes and the invalid connection handle come from the SoftDevice headers
  (\<^verbatim>\<open>nrf_error.h\<close>, \<^verbatim>\<open>ble_err.h\<close>, \<^verbatim>\<open>ble_types.h\<close>), which the
  repository includes but does not contain; the values are the ones of the nRF5 SDK.
\<close>

definition NRF_SUCCESS :: uint32_t where
  "NRF_SUCCESS = 0"

definition NRF_ERROR_INVALID_STATE :: uint32_t where
  "NRF_ERROR_INVALID_STATE = 8"

definition NRF_ERROR_RESOURCES :: uint32_t where
  "NRF_ERROR_RESOURCES = 19"

definition BLE_ERROR_INVALID_CONN_HANDLE :: uint32_t where
  "BLE_ERROR_INVALID_CONN_HANDLE = 0x3002"

definition BLE_CONN_HANDLE_INVALID :: uint16_t where
  "BLE_CONN_HANDLE_INVALID = 0xFFFF"

definition BLE_GAP_ADV_SET_HANDLE_NOT_SET :: uint8_t where
  "BLE_GAP_ADV_SET_HANDLE_NOT_SET = 0xFF"

subsection \<open>Program state\<close>

text \<open>
  The anonymous struct of \<^verbatim>\<open>rx\<close> and \<^verbatim>\<open>tx\<close>: a byte array with a write index
  \<open>head\<close> and a read index \<open>tail\<close>.
\<close>

record ring =
  buffer :: "uint8_t list"
  head :: uint16_t
  tail :: uint16_t

text \<open>
  The calls into the SoftDevice and the delay macro, with the arguments the claims
  look at. They are recorded in call order in the field \<open>sd_calls\<close> of the state.
\<close>

datatype sd_call =
    Sd_ble_gap_ppcp_get
  | Sd_ble_gap_conn_param_update uint16_t
  | Sd_ble_gap_adv_start uint8_t
  | Sd_ble_gap_phy_update uint16_t
  | Sd_ble_gatts_exchange_mtu_reply uint16_t uint16_t
  | Sd_ble_gap_disconnect uint16_t
  | Sd_ble_gatts_sys_attr_set uint16_t
  | Sd_ble_gap_sec_params_reply uint16_t
  | Sd_ble_gatts_hvx uint16_t "uint8_t list"
  | Nrfx_delay_us nat
  | Sd_app_evt_wait

text \<open>
  The globals the transport uses: both rings, \<^verbatim>\<open>negotiated_mtu\<close>, and the fields
  \<^verbatim>\<open>connection\<close> and \<^verbatim>\<open>advertising\<close> of \<^verbatim>\<open>ble_handles\<close>. Two fields are
  observations, not program variables: \<open>sd_calls\<close> lists the external calls made so
  far, and \<open>waited_in\<close> keeps, for every call of \<^verbatim>\<open>sd_app_evt_wait\<close>, the pair
  \<open>(rx, tx)\<close> as it was when the call was made.
\<close>

record state =
  rx :: ring
  tx :: ring
  negotiated_mtu :: uint16_t
  connection :: uint16_t
  advertising :: uint8_t
  sd_calls :: "sd_call list"
  waited_in :: "(ring \<times> ring) list"

text \<open>
  The state after static initialisation: the arrays are zero-filled, the indices are 0,
  \<^verbatim>\<open>negotiated_mtu\<close> has no initialiser and is therefore 0.
\<close>

definition empty_ring :: "uint16_t \<Rightarrow> ring" where
  "empty_ring N = \<lparr>buffer = replicate (unat N) 0, head = 0, tail = 0\<rparr>"

definition init_state :: state where
  "init_state =
     \<lparr>rx = empty_ring RING_BUFFER_LENGTH,
      tx = empty_ring RING_BUFFER_LENGTH,
      negotiated_mtu = 0,
      connection = BLE_CONN_HANDLE_INVALID,
      advertising = BLE_GAP_ADV_SET_HANDLE_NOT_SET,
      sd_calls = [],
      waited_in = []\<rparr>"

text \<open>
  What ends a run other than a return: the system reset of \<^verbatim>\<open>assert_if\<close>, and a store
  past the end of the local array \<^verbatim>\<open>out_buffer\<close> of the sender, which C leaves
  undefined.
\<close>

datatype fault = System_reset | Out_buffer_overrun

text \<open>
  \<^verbatim>\<open>assert_if\<close> looks at the low 16 bits of the error code only, and resets the system
  when they are not 0. The model returns whether it resets.
\<close>

definition assert_if :: "uint32_t \<Rightarrow> bool" where
  "assert_if err = (and err 0x0000FFFF \<noteq> 0)"

subsection \<open>The ring buffer code\<close>

text \<open>
  The source has no push or pop function: the same few lines are written out at each
  of the four places. The length \<^verbatim>\<open>RING_BUFFER_LENGTH\<close> is a macro there; the
  definitions of this subsection take it as the parameter \<open>N\<close>, and the functions
  of the program below pass \<^const>\<open>RING_BUFFER_LENGTH\<close>.

  \<open>next_index\<close> is \<^verbatim>\<open>uint16_t next = i + 1; if (next == RING_BUFFER_LENGTH) next = 0;\<close>
\<close>

definition next_index :: "uint16_t \<Rightarrow> uint16_t \<Rightarrow> uint16_t" where
  "next_index N i = (let next = i + 1 in if next = N then 0 else next)"

text \<open>
  The \<^verbatim>\<open>for\<close> loop of \<^verbatim>\<open>mp_hal_stdout_tx_strn\<close> (on \<^verbatim>\<open>tx\<close>, lines 211-236) and of
  the case \<^verbatim>\<open>BLE_GATTS_EVT_WRITE\<close> (on \<^verbatim>\<open>rx\<close>, lines 811-836): for each byte, leave
  the loop when the next head equals the tail, else store the byte at the head and
  advance the head. The loop counter is a \<^verbatim>\<open>uint16_t\<close>; the loop has left through
  \<^verbatim>\<open>break\<close> long before the counter could wrap, since nothing reads the ring
  meanwhile.
\<close>

fun ring_write :: "uint16_t \<Rightarrow> ring \<Rightarrow> uint8_t list \<Rightarrow> ring" where
  "ring_write N r [] = r"
| "ring_write N r (c # str) =
     (let next = next_index N (head r) in
      if next = tail r then r
      else ring_write N (r\<lparr>buffer := (buffer r)[unat (head r) := c], head := next\<rparr>) str)"

text \<open>
  Lines 334-350 of \<^verbatim>\<open>mp_hal_stdin_rx_chr\<close>: read the byte at the tail and advance the
  tail. The source reaches these lines only when \<^verbatim>\<open>head != tail\<close>; \<open>ring_pop\<close>
  includes that guard and gives \<open>None\<close> on an empty ring.
\<close>

definition ring_read :: "uint16_t \<Rightarrow> ring \<Rightarrow> uint8_t \<times> ring" where
  "ring_read N r = (buffer r ! unat (tail r), r\<lparr>tail := next_index N (tail r)\<rparr>)"



text \<open>
  The second \<^verbatim>\<open>while\<close> loop of \<^verbatim>\<open>ble_send_pending_data\<close> (lines 255-277): while the
  ring is not empty, copy the byte at the tail to \<^verbatim>\<open>out_buffer[out_len++]\<close>, advance
  the tail, and leave once \<^verbatim>\<open>out_len >= negotiated_mtu\<close>. \<^verbatim>\<open>out_buffer\<close> has
  \<^verbatim>\<open>MAX_MTU_LENGTH\<close> elements; a store at an index beyond them is the fault
  \<^const>\<open>Out_buffer_overrun\<close>.
\<close>

function tx_drain ::
  "uint16_t \<Rightarrow> uint16_t \<Rightarrow> ring \<Rightarrow> uint8_t list \<Rightarrow> uint16_t
     \<Rightarrow> fault + (ring \<times> uint8_t list \<times> uint16_t)" where
  "tx_drain N mtu r out_buffer out_len =
     (if tail r \<noteq> head r then
        (let next = next_index N (tail r) in
         if out_len < MAX_MTU_LENGTH then
           (let out_buffer' = out_buffer[unat out_len := buffer r ! unat (tail r)];
                out_len' = out_len + 1;
                r' = r\<lparr>tail := next\<rparr>
            in if out_len' \<ge> mtu then Inr (r', out_buffer', out_len')
               else tx_drain N mtu r' out_buffer' out_len')
         else Inl Out_buffer_overrun)
      else Inr (r, out_buffer, out_len))"
  by pat_completeness auto
termination
  by (relation "measure (\<lambda>(N, mtu, r, out_buffer, out_len). 128 - unat out_len)")
     (auto simp: MAX_MTU_LENGTH_def word_less_nat_alt unat_word_ariths)

declare tx_drain.simps [simp del]

subsection \<open>The sender\<close>

text \<open>
  The label \<^verbatim>\<open>hvx_try_again\<close> and what follows it (lines 287-310). Every attempt
  calls \<^verbatim>\<open>sd_ble_gatts_hvx\<close> with the current connection handle and the chunk. The
  return codes of the successive attempts are the list \<open>errs\<close>; the result is
  \<open>None\<close> when the list ends while the code would try again. On
  \<^verbatim>\<open>NRF_ERROR_RESOURCES\<close> the code waits 100 microseconds and jumps back; on the two
  codes of a missing connection it returns; any other code goes to \<^verbatim>\<open>assert_if\<close>.
  The result carries the return codes not used. The call is given a pointer to
  \<^verbatim>\<open>out_len\<close>; a call that returns an error is taken to leave it as it was.
\<close>

fun hvx_try_again ::
  "uint32_t list \<Rightarrow> state \<Rightarrow> uint8_t list \<Rightarrow> (fault + state \<times> uint32_t list) option" where
  "hvx_try_again [] s chunk = None"
| "hvx_try_again (err # errs) s chunk =
     (let s1 = s\<lparr>sd_calls := sd_calls s @ [Sd_ble_gatts_hvx (connection s) chunk]\<rparr> in
      if err = NRF_ERROR_INVALID_STATE \<or> err = BLE_ERROR_INVALID_CONN_HANDLE then
        Some (Inr (s1, errs))
      else if err = NRF_ERROR_RESOURCES then
        hvx_try_again errs (s1\<lparr>sd_calls := sd_calls s1 @ [Nrfx_delay_us 100]\<rparr>) chunk
      else if assert_if err then Some (Inl System_reset)
      else Some (Inr (s1, errs)))"

text \<open>
  \<^verbatim>\<open>ble_send_pending_data\<close>: return when \<^verbatim>\<open>tx\<close> is empty; else fill
  \<^verbatim>\<open>out_buffer\<close> (zero-initialised, \<^verbatim>\<open>MAX_MTU_LENGTH\<close> bytes) from the ring and send
  its first \<^verbatim>\<open>out_len\<close> bytes.
\<close>

definition ble_send_pending_data ::
  "uint32_t list \<Rightarrow> state \<Rightarrow> (fault + state \<times> uint32_t list) option" where
  "ble_send_pending_data errs s =
     (if head (tx s) = tail (tx s) then Some (Inr (s, errs))
      else
        (case tx_drain RING_BUFFER_LENGTH (negotiated_mtu s) (tx s)
                (replicate (unat MAX_MTU_LENGTH) 0) 0 of
           Inl f \<Rightarrow> Some (Inl f)
         | Inr (r, out_buffer, out_len) \<Rightarrow>
             hvx_try_again errs (s\<lparr>tx := r\<rparr>) (take (unat out_len) out_buffer)))"

subsection \<open>The console functions\<close>

text \<open>\<^verbatim>\<open>mp_hal_stdout_tx_strn\<close>: the write loop on \<^verbatim>\<open>tx\<close>; \<open>len\<close> is the length of \<open>str\<close>.\<close>

definition mp_hal_stdout_tx_strn :: "state \<Rightarrow> uint8_t list \<Rightarrow> state" where
  "mp_hal_stdout_tx_strn s str = s\<lparr>tx := ring_write RING_BUFFER_LENGTH (tx s) str\<rparr>"

subsection \<open>The event handler\<close>

text \<open>
  The events that \<^verbatim>\<open>sd_ble_evt_get\<close> hands to the \<^verbatim>\<open>switch\<close> of
  \<^verbatim>\<open>SWI2_IRQHandler\<close>, with the fields the cases read: the connection handle, the
  client's MTU, the written bytes (\<^verbatim>\<open>write.len\<close> is their number).
\<close>

datatype ble_evt =
    BLE_GAP_EVT_CONNECTED uint16_t
  | BLE_GAP_EVT_DISCONNECTED
  | BLE_GAP_EVT_PHY_UPDATE_REQUEST uint16_t
  | BLE_GATTS_EVT_EXCHANGE_MTU_REQUEST uint16_t uint16_t
  | BLE_GATTS_EVT_WRITE "uint8_t list"
  | BLE_GATTC_EVT_TIMEOUT uint16_t
  | BLE_GATTS_EVT_TIMEOUT uint16_t
  | BLE_GATTS_EVT_SYS_ATTR_MISSING uint16_t
  | BLE_GAP_EVT_SEC_PARAMS_REQUEST uint16_t
  | BLE_EVT_UNUSED

text \<open>
  The pattern \<^verbatim>\<open>err = sd_...(...); assert_if(err);\<close> of the handler. The function
  \<open>sd\<close> gives the return code of each call.
\<close>

definition sd_checked :: "(sd_call \<Rightarrow> uint32_t) \<Rightarrow> sd_call \<Rightarrow> state \<Rightarrow> fault + state" where
  "sd_checked sd c s =
     (if assert_if (sd c) then Inl System_reset
      else Inr (s\<lparr>sd_calls := sd_calls s @ [c]\<rparr>))"

text \<open>One case of the \<^verbatim>\<open>switch\<close> (lines 736-888), in the order of the source.\<close>

fun ble_evt_handler :: "(sd_call \<Rightarrow> uint32_t) \<Rightarrow> ble_evt \<Rightarrow> state \<Rightarrow> fault + state" where
  "ble_evt_handler sd (BLE_GAP_EVT_CONNECTED conn_handle) s =
     (case sd_checked sd Sd_ble_gap_ppcp_get (s\<lparr>connection := conn_handle\<rparr>) of
        Inl f \<Rightarrow> Inl f
      | Inr s1 \<Rightarrow> sd_checked sd (Sd_ble_gap_conn_param_update conn_handle) s1)"
| "ble_evt_handler sd BLE_GAP_EVT_DISCONNECTED s =
     sd_checked sd (Sd_ble_gap_adv_start (advertising s))
       (s\<lparr>connection := BLE_CONN_HANDLE_INVALID\<rparr>)"
| "ble_evt_handler sd (BLE_GAP_EVT_PHY_UPDATE_REQUEST conn_handle) s =
     sd_checked sd (Sd_ble_gap_phy_update conn_handle) s"
| "ble_evt_handler sd (BLE_GATTS_EVT_EXCHANGE_MTU_REQUEST conn_handle client_mtu) s =
     (case sd_checked sd (Sd_ble_gatts_exchange_mtu_reply conn_handle MAX_MTU_LENGTH) s of
        Inl f \<Rightarrow> Inl f
      | Inr s1 \<Rightarrow>
          Inr (s1\<lparr>negotiated_mtu :=
                     (if MAX_MTU_LENGTH < client_mtu then MAX_MTU_LENGTH - 3
                      else client_mtu - 3)\<rparr>))"
| "ble_evt_handler sd (BLE_GATTS_EVT_WRITE data) s =
     Inr (s\<lparr>rx := ring_write RING_BUFFER_LENGTH (rx s) data\<rparr>)"
| "ble_evt_handler sd (BLE_GATTC_EVT_TIMEOUT conn_handle) s =
     sd_checked sd (Sd_ble_gap_disconnect conn_handle) s"
| "ble_evt_handler sd (BLE_GATTS_EVT_TIMEOUT conn_handle) s =
     sd_checked sd (Sd_ble_gap_disconnect conn_handle) s"
| "ble_evt_handler sd (BLE_GATTS_EVT_SYS_ATTR_MISSING conn_handle) s =
     sd_checked sd (Sd_ble_gatts_sys_attr_set conn_handle) s"
| "ble_evt_handler sd (BLE_GAP_EVT_SEC_PARAMS_REQUEST conn_handle) s =
     sd_checked sd (Sd_ble_gap_sec_params_reply conn_handle) s"
| "ble_evt_handler sd BLE_EVT_UNUSED s = Inr s"

text \<open>
  The loop \<^verbatim>\<open>while (1)\<close> of \<^verbatim>\<open>SWI2_IRQHandler\<close>: it handles the pending events
  one after the other until \<^verbatim>\<open>sd_ble_evt_get\<close> finds no more. The list holds the
  events of one activation of the handler, each fetched with \<^verbatim>\<open>NRF_SUCCESS\<close>. The
  loop on \<^verbatim>\<open>sd_evt_get\<close> before it has empty cases and is left out.
\<close>

fun SWI2_IRQHandler :: "(sd_call \<Rightarrow> uint32_t) \<Rightarrow> ble_evt list \<Rightarrow> state \<Rightarrow> fault + state" where
  "SWI2_IRQHandler sd [] s = Inr s"
| "SWI2_IRQHandler sd (e # evts) s =
     (case ble_evt_handler sd e s of
        Inl f \<Rightarrow> Inl f
      | Inr s' \<Rightarrow> SWI2_IRQHandler sd evts s')"

subsection \<open>The blocking read\<close>

lemma hvx_try_again_uses_errs:
  "hvx_try_again errs s chunk = Some (Inr (s1, errs1)) \<Longrightarrow> length errs1 < length errs"
proof (induction errs arbitrary: s)
  case Nil
  then show ?case by simp
next
  case (Cons err errs)
  from Cons.prems show ?case
    by (auto simp: Let_def split: if_splits dest!: Cons.IH)
qed

lemma ble_send_pending_data_uses_errs:
  assumes "ble_send_pending_data errs s = Some (Inr (s1, errs1))"
  shows "(s1 = s \<and> errs1 = errs \<and> head (tx s) = tail (tx s)) \<or> length errs1 < length errs"
  using assms
  by (auto simp: ble_send_pending_data_def split: if_splits sum.splits
           dest: hvx_try_again_uses_errs)

text \<open>
  The handler is an interrupt: it can run between any two steps of the foreground
  code. \<open>irqs\<close> lists, for the successive points at which the model lets it in, the
  events it handles there; an empty batch is a point passed with no interrupt, and
  once the list is used up no interrupt occurs any more. \<open>preempt\<close> is one such
  point.
\<close>

definition preempt ::
  "(sd_call \<Rightarrow> uint32_t) \<Rightarrow> ble_evt list list \<Rightarrow> state
     \<Rightarrow> fault + state \<times> ble_evt list list" where
  "preempt sd irqs s =
     (case irqs of
        [] \<Rightarrow> Inr (s, [])
      | evts # irqs1 \<Rightarrow>
          (case SWI2_IRQHandler sd evts s of
             Inl f \<Rightarrow> Inl f
           | Inr s1 \<Rightarrow> Inr (s1, irqs1)))"

lemma preempt_uses_irqs:
  assumes "preempt sd irqs s = Inr (s1, irqs1)"
  shows "(irqs = [] \<and> s1 = s \<and> irqs1 = []) \<or> length irqs1 < length irqs"
  using assms by (auto simp: preempt_def split: list.splits sum.splits)

text \<open>
  The loop \<^verbatim>\<open>while (rx.head == rx.tail)\<close> of \<^verbatim>\<open>mp_hal_stdin_rx_chr\<close> (lines
  320-332). The foreground code never writes the head of \<^verbatim>\<open>rx\<close>: only the handler
  does. In an iteration the model lets the handler in at four points: between the
  test of the loop and the call of the sender, between the return of the sender and
  the test of line 326, between that test and the call of \<^verbatim>\<open>sd_app_evt_wait\<close>
  (nothing in the source masks the interrupt there), and inside
  \<^verbatim>\<open>sd_app_evt_wait\<close>, which returns when an interrupt has occurred: there the
  result is \<open>None\<close> when no batch is left. Events handled while the sender runs are
  taken at the point after it: the sender reads and writes nothing of \<^verbatim>\<open>rx\<close>, and
  a change of \<^verbatim>\<open>negotiated_mtu\<close> or of the connection handle made meanwhile shows
  from its next call on. Between the last test of the loop and the read at the tail
  the handler can only store at the head, which changes neither the byte read nor the
  tail, so no point is placed there.
  \<open>errs\<close> gives the return codes of the transmit attempts; the result is \<open>None\<close>
  as well when it ends while the sender would try again. Otherwise the result is the
  state at the exit of the loop, with what is left of the two lists. The pair
  \<open>(rx, tx)\<close> is recorded in \<open>waited_in\<close> as it is at the call of
  \<^verbatim>\<open>sd_app_evt_wait\<close>.
\<close>

function rx_wait ::
  "(sd_call \<Rightarrow> uint32_t) \<Rightarrow> ble_evt list list \<Rightarrow> uint32_t list \<Rightarrow> state
     \<Rightarrow> (fault + state \<times> ble_evt list list \<times> uint32_t list) option" where
  "rx_wait sd irqs errs s =
     (if head (rx s) = tail (rx s) then
        (case preempt sd irqs s of
           Inl f \<Rightarrow> Some (Inl f)
         | Inr (s1, irqs1) \<Rightarrow>
             (case ble_send_pending_data errs s1 of
                None \<Rightarrow> None
              | Some (Inl f) \<Rightarrow> Some (Inl f)
              | Some (Inr (s2, errs2)) \<Rightarrow>
                  (case preempt sd irqs1 s2 of
                     Inl f \<Rightarrow> Some (Inl f)
                   | Inr (s3, irqs3) \<Rightarrow>
                       if head (tx s3) = tail (tx s3) \<and> head (rx s3) = tail (rx s3) then
                         (case preempt sd irqs3 s3 of
                            Inl f \<Rightarrow> Some (Inl f)
                          | Inr (s4, irqs4) \<Rightarrow>
                              (case irqs4 of
                                 [] \<Rightarrow> None
                               | evts # irqs5 \<Rightarrow>
                                   (case SWI2_IRQHandler sd evts
                                           (s4\<lparr>sd_calls := sd_calls s4 @ [Sd_app_evt_wait],
                                               waited_in := waited_in s4 @ [(rx s4, tx s4)]\<rparr>) of
                                      Inl f \<Rightarrow> Some (Inl f)
                                    | Inr s5 \<Rightarrow> rx_wait sd irqs5 errs2 s5)))
                       else rx_wait sd irqs3 errs2 s3)))
      else Some (Inr (s, irqs, errs)))"
  by pat_completeness auto
termination
proof (relation "measure (\<lambda>(sd, irqs, errs, s). length irqs + length errs)", goal_cases)
  case 1
  show ?case by simp
next
  case (2 sd irqs errs s x s1 irqs1 x2 x3 s2 errs2 x4 s3 irqs3 x5 s4 irqs4 evts irqs5 s5)
  from 2 have "preempt sd irqs s = Inr (s1, irqs1)"
    "ble_send_pending_data errs s1 = Some (Inr (s2, errs2))"
    "preempt sd irqs1 s2 = Inr (s3, irqs3)" "preempt sd irqs3 s3 = Inr (s4, evts # irqs5)"
    by simp_all
  then show ?case
    by (auto dest!: preempt_uses_irqs ble_send_pending_data_uses_errs)
next
  case (3 sd irqs errs s x s1 irqs1 x2 x3 s2 errs2 x4 s3 irqs3)
  from 3 have "preempt sd irqs s = Inr (s1, irqs1)"
    "ble_send_pending_data errs s1 = Some (Inr (s2, errs2))"
    "preempt sd irqs1 s2 = Inr (s3, irqs3)"
    and e: "head (rx s) = tail (rx s)"
    and n: "\<not> (head (tx s3) = tail (tx s3) \<and> head (rx s3) = tail (rx s3))"
    by simp_all
  with e n show ?case
    by (auto dest!: preempt_uses_irqs ble_send_pending_data_uses_errs)
qed

declare rx_wait.simps [simp del]

text \<open>
  \<^verbatim>\<open>mp_hal_stdin_rx_chr\<close>: the loop, then the read at the tail of \<^verbatim>\<open>rx\<close> (lines
  334-350). The result is the character, the state, and what is left of the two lists.
\<close>

definition mp_hal_stdin_rx_chr ::
  "(sd_call \<Rightarrow> uint32_t) \<Rightarrow> ble_evt list list \<Rightarrow> uint32_t list \<Rightarrow> state
     \<Rightarrow> (fault + uint8_t \<times> state \<times> ble_evt list list \<times> uint32_t list) option" where
  "mp_hal_stdin_rx_chr sd irqs errs s =
     (case rx_wait sd irqs errs s of
        None \<Rightarrow> None
      | Some (Inl f) \<Rightarrow> Some (Inl f)
      | Some (Inr (s1, irqs1, errs1)) \<Rightarrow>
          (case ring_read RING_BUFFER_LENGTH (rx s1) of
             (character, r) \<Rightarrow> Some (Inr (character, s1\<lparr>rx := r\<rparr>, irqs1, errs1))))"

subsection \<open>What a ring holds\<close>

text \<open>
  A ring is well formed for the length \<open>N\<close> when both indices are below \<open>N\<close> and
  the array has \<open>N\<close> elements. Its contents are the bytes from the tail up to the
  head, in the order in which they will be read.
\<close>

definition ring_ok :: "uint16_t \<Rightarrow> ring \<Rightarrow> bool" where
  "ring_ok N r = (head r < N \<and> tail r < N \<and> length (buffer r) = unat N)"

definition contents :: "ring \<Rightarrow> uint8_t list" where
  "contents r =
     (let h = unat (head r); t = unat (tail r) in
      if t \<le> h then take (h - t) (drop t (buffer r))
      else drop t (buffer r) @ take h (buffer r))"

text \<open>
  The number of bytes one run of the copy loop of the sender takes from a ring that
  holds \<open>n\<close> bytes, when \<^verbatim>\<open>out_len\<close> starts at \<open>ol\<close>: the loop tests
  \<^verbatim>\<open>out_len >= negotiated_mtu\<close> after the copy, so it takes one byte at least.
\<close>

definition chunk_length :: "nat \<Rightarrow> nat \<Rightarrow> nat \<Rightarrow> nat" where
  "chunk_length n mtu ol = min n (max 1 (mtu - ol))"

text \<open>The ring after \<open>k\<close> reads: the tail has advanced \<open>k\<close> times, nothing else changed.\<close>

definition advance_tail :: "uint16_t \<Rightarrow> nat \<Rightarrow> ring \<Rightarrow> ring" where
  "advance_tail N k r = r\<lparr>tail := (next_index N ^^ k) (tail r)\<rparr>"

text \<open>
  The number of bytes the sender takes from \<^verbatim>\<open>tx\<close> in the state \<open>s\<close>.
\<close>

definition tx_chunk_length :: "state \<Rightarrow> nat" where
  "tx_chunk_length s = chunk_length (length (contents (tx s))) (unat (negotiated_mtu s)) 0"


text \<open>Both rings of a state are well formed for \<^verbatim>\<open>RING_BUFFER_LENGTH\<close>.\<close>

definition rings_ok :: "state \<Rightarrow> bool" where
  "rings_ok s = (ring_ok RING_BUFFER_LENGTH (rx s) \<and> ring_ok RING_BUFFER_LENGTH (tx s))"

text \<open>A SoftDevice that accepts every call.\<close>

definition sd_success :: "sd_call \<Rightarrow> uint32_t" where
  "sd_success c = NRF_SUCCESS"

subsection \<open>Runs of the program\<close>

text \<open>
  What touches the rings after start-up: a call of \<^verbatim>\<open>mp_hal_stdout_tx_strn\<close>, of
  \<^verbatim>\<open>ble_send_pending_data\<close> or of \<^verbatim>\<open>mp_hal_stdin_rx_chr\<close>, and an activation of
  \<^verbatim>\<open>SWI2_IRQHandler\<close>, each with what the environment supplies to it. A step gives
  the state after the call, and \<open>None\<close> when the call does not return (a fault, or
  the supplied lists end first). A run is a sequence of steps.
\<close>

datatype op =
    Tx_strn "uint8_t list"
  | Send_pending "uint32_t list"
  | Irq "sd_call \<Rightarrow> uint32_t" "ble_evt list"
  | Rx_chr "sd_call \<Rightarrow> uint32_t" "ble_evt list list" "uint32_t list"

fun step :: "op \<Rightarrow> state \<Rightarrow> state option" where
  "step (Tx_strn str) s = Some (mp_hal_stdout_tx_strn s str)"
| "step (Send_pending errs) s =
     (case ble_send_pending_data errs s of
        Some (Inr (s', errs')) \<Rightarrow> Some s'
      | _ \<Rightarrow> None)"
| "step (Irq sd evts) s =
     (case SWI2_IRQHandler sd evts s of
        Inr s' \<Rightarrow> Some s'
      | Inl f \<Rightarrow> None)"
| "step (Rx_chr sd irqs errs) s =
     (case mp_hal_stdin_rx_chr sd irqs errs s of
        Some (Inr (c, s', irqs', errs')) \<Rightarrow> Some s'
      | _ \<Rightarrow> None)"

fun run :: "op list \<Rightarrow> state \<Rightarrow> state option" where
  "run [] s = Some s"
| "run (x # xs) s = (case step x s of None \<Rightarrow> None | Some s' \<Rightarrow> run xs s')"

section \<open>Properties of the ring buffer code\<close>

subsection \<open>Indices\<close>

lemma unat_succ: "(i::uint16_t) < N \<Longrightarrow> unat (i + 1) = Suc (unat i)"
proof -
  assume "i < N"
  then have "unat i < unat N" by (simp add: word_less_nat_alt)
  moreover have "unat N < 2 ^ 16" using unsigned_less [of N] by simp
  ultimately have "unat i + 1 < 2 ^ 16" by simp
  then show ?thesis by (simp add: unat_word_ariths)
qed

lemma next_index_unat:
  "i < N \<Longrightarrow> unat (next_index N i) = (if Suc (unat i) = unat N then 0 else Suc (unat i))"
  using unat_succ [of i N]
  by (auto simp: next_index_def Let_def simp flip: word_unat_eq_iff)

lemma next_index_less: "i < N \<Longrightarrow> next_index N i < N"
  using next_index_unat [of i N]
  by (auto simp: word_less_nat_alt split: if_splits)

subsection \<open>Contents\<close>

lemma length_contents:
  "ring_ok N r \<Longrightarrow>
     length (contents r) =
       (if unat (tail r) \<le> unat (head r) then unat (head r) - unat (tail r)
        else unat N - unat (tail r) + unat (head r))"
  by (auto simp: ring_ok_def contents_def Let_def word_less_nat_alt)

lemma length_contents_less: "ring_ok N r \<Longrightarrow> length (contents r) < unat N"
  by (auto simp: length_contents) (auto simp: ring_ok_def word_less_nat_alt)

lemma empty_iff: "ring_ok N r \<Longrightarrow> (head r = tail r) = (contents r = [])"
proof -
  assume ok: "ring_ok N r"
  have "(contents r = []) = (length (contents r) = 0)" by simp
  also have "\<dots> = (unat (head r) = unat (tail r))"
    using ok by (auto simp: length_contents) (auto simp: ring_ok_def word_less_nat_alt)
  finally show ?thesis by (simp add: word_unat_eq_iff)
qed

lemma full_iff:
  "ring_ok N r \<Longrightarrow> (next_index N (head r) = tail r) = (length (contents r) = unat N - 1)"
proof -
  assume ok: "ring_ok N r"
  then have h: "head r < N" and t: "tail r < N" by (simp_all add: ring_ok_def)
  have "(next_index N (head r) = tail r) = (unat (next_index N (head r)) = unat (tail r))"
    by (simp add: word_unat_eq_iff)
  also have "\<dots> = (length (contents r) = unat N - 1)"
    using h t by (auto simp: length_contents [OF ok] next_index_unat [OF h] word_less_nat_alt)
  finally show ?thesis .
qed

lemma ring_ok_store:
  "ring_ok N r \<Longrightarrow>
     ring_ok N (r\<lparr>buffer := (buffer r)[unat (head r) := c], head := next_index N (head r)\<rparr>)"
  by (simp add: ring_ok_def next_index_less)

lemma contents_store:
  assumes ok: "ring_ok N r" and nf: "next_index N (head r) \<noteq> tail r"
  shows "contents (r\<lparr>buffer := (buffer r)[unat (head r) := c], head := next_index N (head r)\<rparr>)
           = contents r @ [c]"
proof -
  from ok have h: "unat (head r) < unat N" and t: "unat (tail r) < unat N"
    and len: "length (buffer r) = unat N"
    by (simp_all add: ring_ok_def word_less_nat_alt)
  from ok have hN: "head r < N" by (simp add: ring_ok_def)
  from nf have nf': "unat (next_index N (head r)) \<noteq> unat (tail r)"
    by (simp add: word_unat_eq_iff)
  show ?thesis
  proof (cases "Suc (unat (head r)) = unat N")
    case True
    with nf' hN have t0: "unat (tail r) \<noteq> 0" by (simp add: next_index_unat)
    from True t have th: "unat (tail r) \<le> unat (head r)" by simp
    have "drop (unat (tail r)) ((buffer r)[unat (head r) := c])
            = take (unat (head r) - unat (tail r)) (drop (unat (tail r)) (buffer r)) @ [c]"
      using True th len
      by (simp add: drop_update_swap upd_conv_take_nth_drop drop_take)
    with True t0 th show ?thesis
      by (simp add: contents_def Let_def next_index_unat [OF hN])
  next
    case False
    show ?thesis
    proof (cases "unat (tail r) \<le> unat (head r)")
      case True
      have "take (Suc (unat (head r)) - unat (tail r))
              (drop (unat (tail r)) ((buffer r)[unat (head r) := c]))
            = take (unat (head r) - unat (tail r)) (drop (unat (tail r)) (buffer r)) @ [c]"
        using True h len
        by (simp add: drop_update_swap Suc_diff_le take_Suc_conv_app_nth)
      with True False show ?thesis
        by (simp add: contents_def Let_def next_index_unat [OF hN])
    next
      case lt: False
      with False nf' hN have "Suc (unat (head r)) < unat (tail r)"
        by (simp add: next_index_unat)
      with False lt h len show ?thesis
        by (simp add: contents_def Let_def next_index_unat [OF hN] take_Suc_conv_app_nth)
    qed
  qed
qed

lemma ring_write_contents:
  "ring_ok N r \<Longrightarrow>
     ring_ok N (ring_write N r bs) \<and> tail (ring_write N r bs) = tail r \<and>
     contents (ring_write N r bs)
       = contents r @ take (unat N - 1 - length (contents r)) bs"
proof (induction bs arbitrary: r)
  case Nil
  then show ?case by simp
next
  case (Cons c bs)
  show ?case
  proof (cases "next_index N (head r) = tail r")
    case True
    with Cons.prems show ?thesis by (simp add: full_iff)
  next
    case False
    let ?r = "r\<lparr>buffer := (buffer r)[unat (head r) := c], head := next_index N (head r)\<rparr>"
    have ok: "ring_ok N ?r" using Cons.prems by (rule ring_ok_store)
    have c: "contents ?r = contents r @ [c]" using Cons.prems False by (rule contents_store)
    from False Cons.prems have "length (contents r) \<noteq> unat N - 1" by (simp add: full_iff)
    with length_contents_less [OF Cons.prems]
    obtain k where k: "unat N - 1 - length (contents r) = Suc k"
      by (metis Suc_diff_Suc Suc_pred' diff_is_0_eq' less_Suc_eq_le less_imp_diff_less
          linorder_neqE_nat not_less_eq zero_less_diff)
    then have k': "unat N - 1 - length (contents ?r) = k" by (simp add: c)
    from Cons.IH [OF ok] False c k k' show ?thesis
      by (simp add: Let_def)
  qed
qed

lemma ring_read_contents:
  assumes ok: "ring_ok N r" and ne: "head r \<noteq> tail r"
  shows "ring_ok N (r\<lparr>tail := next_index N (tail r)\<rparr>) \<and>
         contents r = buffer r ! unat (tail r) # contents (r\<lparr>tail := next_index N (tail r)\<rparr>)"
proof -
  from ok have h: "unat (head r) < unat N" and t: "unat (tail r) < unat N"
    and len: "length (buffer r) = unat N" and tN: "tail r < N"
    by (simp_all add: ring_ok_def word_less_nat_alt)
  from ne have ne': "unat (head r) \<noteq> unat (tail r)" by (simp add: word_unat_eq_iff)
  have ok': "ring_ok N (r\<lparr>tail := next_index N (tail r)\<rparr>)"
    using ok by (simp add: ring_ok_def next_index_less)
  have "contents r = buffer r ! unat (tail r) # contents (r\<lparr>tail := next_index N (tail r)\<rparr>)"
  proof (cases "Suc (unat (tail r)) = unat N")
    case True
    with h ne' have "unat (head r) < unat (tail r)" by simp
    moreover have "drop (unat (tail r)) (buffer r) = [buffer r ! unat (tail r)]"
      using True len Cons_nth_drop_Suc [of "unat (tail r)" "buffer r"] by simp
    ultimately show ?thesis using True
      by (simp add: contents_def Let_def next_index_unat [OF tN])
  next
    case False
    have d: "drop (unat (tail r)) (buffer r)
               = buffer r ! unat (tail r) # drop (Suc (unat (tail r))) (buffer r)"
      using t len by (simp add: Cons_nth_drop_Suc)
    show ?thesis
    proof (cases "unat (tail r) < unat (head r)")
      case True
      then obtain k where "unat (head r) - unat (tail r) = Suc k"
        by (metis Suc_diff_Suc)
      moreover from this have "unat (head r) - Suc (unat (tail r)) = k" by simp
      ultimately show ?thesis using True False d
        by (simp add: contents_def Let_def next_index_unat [OF tN])
    next
      case hlt: False
      with ne' have "unat (head r) < unat (tail r)" by simp
      with False d show ?thesis
        by (simp add: contents_def Let_def next_index_unat [OF tN])
    qed
  qed
  with ok' show ?thesis by simp
qed

subsection \<open>The copy loop of the sender\<close>

lemma tx_drain_contents:
  "ring_ok N r \<Longrightarrow> length ob = 128 \<Longrightarrow> unat ol \<le> 128 \<Longrightarrow>
   (case tx_drain N mtu r ob ol of
      Inl f \<Rightarrow>
        f = Out_buffer_overrun \<and> contents r \<noteq> [] \<and>
        128 < unat ol + chunk_length (length (contents r)) (unat mtu) (unat ol)
    | Inr (r', ob', ol') \<Rightarrow>
        ring_ok N r' \<and> length ob' = 128 \<and>
        r' = r\<lparr>tail :=
                 (next_index N ^^ chunk_length (length (contents r)) (unat mtu) (unat ol)) (tail r)\<rparr> \<and>
        unat ol' = unat ol + chunk_length (length (contents r)) (unat mtu) (unat ol) \<and>
        unat ol + chunk_length (length (contents r)) (unat mtu) (unat ol) \<le> 128 \<and>
        contents r' = drop (chunk_length (length (contents r)) (unat mtu) (unat ol)) (contents r) \<and>
        take (unat ol + chunk_length (length (contents r)) (unat mtu) (unat ol)) ob'
          = take (unat ol) ob
            @ take (chunk_length (length (contents r)) (unat mtu) (unat ol)) (contents r))"
proof (induction N mtu r ob ol rule: tx_drain.induct)
  case (1 N mtu r ob ol)
  note ok = \<open>ring_ok N r\<close> and len = \<open>length ob = 128\<close> and le = \<open>unat ol \<le> 128\<close>
  show ?case
  proof (cases "tail r = head r")
    case True
    with ok have "contents r = []" by (simp add: empty_iff [symmetric])
    with True ok len le show ?thesis
      by (simp add: chunk_length_def tx_drain.simps [of N mtu r ob ol])
  next
    case ne: False
    let ?r = "r\<lparr>tail := next_index N (tail r)\<rparr>"
    let ?b = "buffer r ! unat (tail r)"
    let ?ob = "ob[unat ol := ?b]"
    from ne have ne': "head r \<noteq> tail r" by simp
    from ring_read_contents [OF ok ne']
    have ok': "ring_ok N ?r" and c: "contents r = ?b # contents ?r" by simp_all
    show ?thesis
    proof (cases "ol < MAX_MTU_LENGTH")
      case False
      then have "unat ol = 128" using le by (simp add: MAX_MTU_LENGTH_def word_less_nat_alt)
      with ne False c show ?thesis
        by (simp add: chunk_length_def tx_drain.simps [of N mtu r ob ol])
    next
      case lt: True
      then have ol: "unat ol < 128" by (simp add: MAX_MTU_LENGTH_def word_less_nat_alt)
      from lt have ol': "unat (ol + 1) = Suc (unat ol)" by (rule unat_succ)
      have tk: "take (Suc (unat ol)) ?ob = take (unat ol) ob @ [?b]"
        using ol len by (simp add: take_Suc_conv_app_nth)
      show ?thesis
      proof (cases "ol + 1 \<ge> mtu")
        case True
        then have "unat mtu - unat ol \<le> 1" by (simp add: word_le_nat_alt ol')
        then have k: "chunk_length (length (contents r)) (unat mtu) (unat ol) = 1"
          by (simp add: chunk_length_def c)
        have "tx_drain N mtu r ob ol = Inr (?r, ?ob, ol + 1)"
          using ne lt True by (simp add: Let_def tx_drain.simps [of N mtu r ob ol])
        with ok' len ol ol' tk k c show ?thesis by simp
      next
        case False
        then have m: "Suc (unat ol) < unat mtu" by (simp add: word_le_nat_alt ol')
        have k: "chunk_length (Suc (length (contents ?r))) (unat mtu) (unat ol)
                  = Suc (chunk_length (length (contents ?r)) (unat mtu) (Suc (unat ol)))"
          using m by (simp add: chunk_length_def)
        have eq: "tx_drain N mtu r ob ol = tx_drain N mtu ?r ?ob (ol + 1)"
          using ne lt False by (simp add: Let_def tx_drain.simps [of N mtu r ob ol])
        from "1.IH" [OF ne refl lt refl refl refl False ok'] len ol
        show ?thesis
          unfolding eq ol' c
          by (auto simp: tk k funpow_swap1 split: sum.splits)
      qed
    qed
  qed
qed

subsection \<open>The sender\<close>

lemma ble_send_pending_data_chunk:
  assumes ok: "ring_ok RING_BUFFER_LENGTH (tx s)"
    and ne: "head (tx s) \<noteq> tail (tx s)"
    and fits: "\<not> isl (tx_drain RING_BUFFER_LENGTH (negotiated_mtu s) (tx s)
                        (replicate (unat MAX_MTU_LENGTH) 0) 0)"
  shows "ble_send_pending_data errs s
           = hvx_try_again errs
               (s\<lparr>tx := advance_tail RING_BUFFER_LENGTH (tx_chunk_length s) (tx s)\<rparr>)
               (take (tx_chunk_length s) (contents (tx s)))"
    and "ring_ok RING_BUFFER_LENGTH (advance_tail RING_BUFFER_LENGTH (tx_chunk_length s) (tx s))"
    and "contents (advance_tail RING_BUFFER_LENGTH (tx_chunk_length s) (tx s))
           = drop (tx_chunk_length s) (contents (tx s))"
    and "tx_chunk_length s \<le> 128"
proof -
  let ?d = "tx_drain RING_BUFFER_LENGTH (negotiated_mtu s) (tx s)
              (replicate (unat MAX_MTU_LENGTH) 0) 0"
  from fits obtain r' ob' ol' where d: "?d = Inr (r', ob', ol')"
    by (cases ?d) auto
  have "length (replicate (unat MAX_MTU_LENGTH) (0::uint8_t)) = 128"
    by (simp add: MAX_MTU_LENGTH_def)
  from tx_drain_contents [OF ok this, of 0 "negotiated_mtu s"] d
  have r: "r' = advance_tail RING_BUFFER_LENGTH (tx_chunk_length s) (tx s)"
    and ok': "ring_ok RING_BUFFER_LENGTH r'"
    and ol: "unat ol' = tx_chunk_length s"
    and le: "tx_chunk_length s \<le> 128"
    and c: "contents r' = drop (tx_chunk_length s) (contents (tx s))"
    and tk: "take (tx_chunk_length s) ob' = take (tx_chunk_length s) (contents (tx s))"
    by (auto simp: advance_tail_def tx_chunk_length_def)
  show "ble_send_pending_data errs s
           = hvx_try_again errs
               (s\<lparr>tx := advance_tail RING_BUFFER_LENGTH (tx_chunk_length s) (tx s)\<rparr>)
               (take (tx_chunk_length s) (contents (tx s)))"
    using ne d by (simp add: ble_send_pending_data_def ol tk r)
  show "ring_ok RING_BUFFER_LENGTH (advance_tail RING_BUFFER_LENGTH (tx_chunk_length s) (tx s))"
    using ok' r by simp
  show "contents (advance_tail RING_BUFFER_LENGTH (tx_chunk_length s) (tx s))
           = drop (tx_chunk_length s) (contents (tx s))"
    using c r by simp
  show "tx_chunk_length s \<le> 128" by (rule le)
qed

text \<open>
  When \<^verbatim>\<open>negotiated_mtu\<close> and the number of bytes in \<^verbatim>\<open>tx\<close> are both above 128,
  the copy loop stores past the end of \<^verbatim>\<open>out_buffer\<close> and no transmit attempt is
  made.
\<close>

lemma ble_send_pending_data_overrun:
  assumes ok: "ring_ok RING_BUFFER_LENGTH (tx s)" and big: "128 < tx_chunk_length s"
  shows "ble_send_pending_data errs s = Some (Inl Out_buffer_overrun)"
proof -
  from big have "contents (tx s) \<noteq> []"
    by (auto simp: tx_chunk_length_def chunk_length_def)
  with ok have ne: "head (tx s) \<noteq> tail (tx s)" by (simp add: empty_iff)
  have "length (replicate (unat MAX_MTU_LENGTH) (0::uint8_t)) = 128"
    by (simp add: MAX_MTU_LENGTH_def)
  from tx_drain_contents [OF ok this, of 0 "negotiated_mtu s"] big
  have "tx_drain RING_BUFFER_LENGTH (negotiated_mtu s) (tx s)
          (replicate (unat MAX_MTU_LENGTH) 0) 0 = Inl Out_buffer_overrun"
    by (auto simp: tx_chunk_length_def split: sum.splits)
  with ne show ?thesis by (simp add: ble_send_pending_data_def)
qed

lemma hvx_try_again_congested:
  "hvx_try_again (replicate n NRF_ERROR_RESOURCES @ errs) s chunk
     = hvx_try_again errs
         (s\<lparr>sd_calls := sd_calls s
              @ concat (replicate n [Sd_ble_gatts_hvx (connection s) chunk, Nrfx_delay_us 100])\<rparr>)
         chunk"
proof (induction n arbitrary: s)
  case 0
  then show ?case by simp
next
  case (Suc n)
  have "NRF_ERROR_RESOURCES \<noteq> NRF_ERROR_INVALID_STATE"
    and "NRF_ERROR_RESOURCES \<noteq> BLE_ERROR_INVALID_CONN_HANDLE"
    by (simp_all add: NRF_ERROR_RESOURCES_def NRF_ERROR_INVALID_STATE_def
          BLE_ERROR_INVALID_CONN_HANDLE_def)
  then show ?case
    by (simp add: Suc.IH Let_def)
qed


lemma ring_write_full: "next_index N (head r) = tail r \<Longrightarrow> ring_write N r str = r"
  by (cases str) simp_all

subsection \<open>Reading back what was written\<close>

lemma ring_ok_empty_ring: "0 < N \<Longrightarrow> ring_ok N (empty_ring N)"
  by (simp add: ring_ok_def empty_ring_def word_greater_zero_iff)

lemma contents_empty_ring: "contents (empty_ring N) = []"
  by (simp add: contents_def empty_ring_def)




subsection \<open>The inbound path\<close>




subsection \<open>What each function leaves unchanged\<close>

lemma hvx_try_again_keeps:
  "hvx_try_again errs s chunk = Some (Inr (s', errs')) \<Longrightarrow>
     rx s' = rx s \<and> tx s' = tx s \<and> waited_in s' = waited_in s \<and>
     negotiated_mtu s' = negotiated_mtu s \<and> connection s' = connection s"
proof (induction errs arbitrary: s)
  case Nil
  then show ?case by simp
next
  case (Cons err errs)
  from Cons.prems show ?case
    by (auto simp: Let_def split: if_splits dest!: Cons.IH)
qed

lemma tx_drain_ring_ok:
  "ring_ok N r \<Longrightarrow> tx_drain N mtu r (replicate (unat MAX_MTU_LENGTH) 0) 0 = Inr (r', ob', ol')
     \<Longrightarrow> ring_ok N r'"
  using tx_drain_contents [of N r "replicate (unat MAX_MTU_LENGTH) 0" 0 mtu]
  by (auto simp: MAX_MTU_LENGTH_def)

lemma ble_send_pending_data_keeps:
  assumes "ble_send_pending_data errs s = Some (Inr (s', errs'))"
  shows "rx s' = rx s \<and> waited_in s' = waited_in s \<and>
         (ring_ok RING_BUFFER_LENGTH (tx s) \<longrightarrow> ring_ok RING_BUFFER_LENGTH (tx s'))"
proof (cases "head (tx s) = tail (tx s)")
  case True
  with assms show ?thesis by (simp add: ble_send_pending_data_def)
next
  case False
  with assms obtain r ob ol where
    d: "tx_drain RING_BUFFER_LENGTH (negotiated_mtu s) (tx s)
          (replicate (unat MAX_MTU_LENGTH) 0) 0 = Inr (r, ob, ol)"
    and h: "hvx_try_again errs (s\<lparr>tx := r\<rparr>) (take (unat ol) ob) = Some (Inr (s', errs'))"
    by (auto simp: ble_send_pending_data_def split: sum.splits)
  from hvx_try_again_keeps [OF h] tx_drain_ring_ok [OF _ d] show ?thesis by simp
qed

lemma sd_checked_keeps:
  "sd_checked sd c s = Inr s' \<Longrightarrow> s' = s\<lparr>sd_calls := sd_calls s @ [c]\<rparr>"
  by (simp add: sd_checked_def split: if_splits)

lemma ble_evt_handler_keeps:
  assumes "ble_evt_handler sd e s = Inr s'"
  shows "tx s' = tx s \<and> waited_in s' = waited_in s \<and>
         (ring_ok RING_BUFFER_LENGTH (rx s) \<longrightarrow> ring_ok RING_BUFFER_LENGTH (rx s'))"
  using assms
  by (cases e) (auto split: sum.splits dest!: sd_checked_keeps simp: ring_write_contents)

lemma SWI2_IRQHandler_keeps:
  "SWI2_IRQHandler sd evts s = Inr s' \<Longrightarrow>
     tx s' = tx s \<and> waited_in s' = waited_in s \<and>
     (ring_ok RING_BUFFER_LENGTH (rx s) \<longrightarrow> ring_ok RING_BUFFER_LENGTH (rx s'))"
proof (induction evts arbitrary: s)
  case Nil
  then show ?case by simp
next
  case (Cons e evts)
  from Cons.prems obtain s1 where h: "ble_evt_handler sd e s = Inr s1"
    and r: "SWI2_IRQHandler sd evts s1 = Inr s'"
    by (auto split: sum.splits)
  from ble_evt_handler_keeps [OF h] Cons.IH [OF r] show ?case by simp
qed

subsection \<open>The sender, in every state\<close>



text \<open>
  With \<^verbatim>\<open>tx\<close> well formed and not empty, the sender either makes its transmit
  attempts with the first \<open>tx_chunk_length s\<close> bytes of the ring, or, when that
  number is above 128, runs past \<^verbatim>\<open>out_buffer\<close> before any attempt.
\<close>

lemma ble_send_pending_data_cases:
  assumes ok: "ring_ok RING_BUFFER_LENGTH (tx s)" and ne: "head (tx s) \<noteq> tail (tx s)"
  shows "ble_send_pending_data errs s
           = (if tx_chunk_length s \<le> 128 then
                hvx_try_again errs
                  (s\<lparr>tx := advance_tail RING_BUFFER_LENGTH (tx_chunk_length s) (tx s)\<rparr>)
                  (take (tx_chunk_length s) (contents (tx s)))
              else Some (Inl Out_buffer_overrun))"
proof (cases "tx_chunk_length s \<le> 128")
  case True
  have "length (replicate (unat MAX_MTU_LENGTH) (0::uint8_t)) = 128"
    by (simp add: MAX_MTU_LENGTH_def)
  from tx_drain_contents [OF ok this, of 0 "negotiated_mtu s"] True
  have "\<not> isl (tx_drain RING_BUFFER_LENGTH (negotiated_mtu s) (tx s)
                  (replicate (unat MAX_MTU_LENGTH) 0) 0)"
    by (auto simp: tx_chunk_length_def split: sum.splits)
  from ble_send_pending_data_chunk(1) [OF ok ne this] True show ?thesis by simp
next
  case False
  then have "128 < tx_chunk_length s" by simp
  from ble_send_pending_data_overrun [OF ok this] False show ?thesis by simp
qed

lemma hvx_try_again_first_call:
  "hvx_try_again errs s chunk = Some (Inr (s', errs')) \<Longrightarrow>
     \<exists>rest. sd_calls s' = sd_calls s @ Sd_ble_gatts_hvx (connection s) chunk # rest"
proof (induction errs arbitrary: s)
  case Nil
  then show ?case by simp
next
  case (Cons err errs)
  from Cons.prems show ?case
    by (auto simp: Let_def split: if_splits dest!: Cons.IH)
qed

text \<open>
  Where the chunk fits \<^verbatim>\<open>out_buffer\<close>: after \<open>n\<close> attempts that return
  \<^verbatim>\<open>NRF_ERROR_RESOURCES\<close> and one that returns \<^verbatim>\<open>NRF_SUCCESS\<close> the sender has
  made \<open>n + 1\<close> calls with the same chunk, with a delay of 100 microseconds after
  each but the last, and only the tail of \<^verbatim>\<open>tx\<close> has moved.
\<close>

lemma congestion_retries_same_chunk:
  assumes "ring_ok RING_BUFFER_LENGTH (tx s)" and "head (tx s) \<noteq> tail (tx s)"
  shows "ble_send_pending_data (replicate n NRF_ERROR_RESOURCES @ NRF_SUCCESS # errs) s
           = (if tx_chunk_length s \<le> 128 then
                Some (Inr (s\<lparr>tx := advance_tail RING_BUFFER_LENGTH (tx_chunk_length s) (tx s),
                              sd_calls := sd_calls s
                                @ concat (replicate n
                                    [Sd_ble_gatts_hvx (connection s)
                                       (take (tx_chunk_length s) (contents (tx s))),
                                     Nrfx_delay_us 100])
                                @ [Sd_ble_gatts_hvx (connection s)
                                     (take (tx_chunk_length s) (contents (tx s)))]\<rparr>,
                           errs))
              else Some (Inl Out_buffer_overrun))"
proof -
  have "NRF_SUCCESS \<noteq> NRF_ERROR_INVALID_STATE"
    and "NRF_SUCCESS \<noteq> BLE_ERROR_INVALID_CONN_HANDLE"
    and "NRF_SUCCESS \<noteq> NRF_ERROR_RESOURCES"
    and "\<not> assert_if NRF_SUCCESS"
    by (simp_all add: NRF_SUCCESS_def NRF_ERROR_RESOURCES_def NRF_ERROR_INVALID_STATE_def
          BLE_ERROR_INVALID_CONN_HANDLE_def assert_if_def)
  then show ?thesis
    by (simp add: ble_send_pending_data_cases [OF assms] hvx_try_again_congested Let_def)
qed

subsection \<open>What the handler and the sender add to the record of calls\<close>

lemma sd_checked_calls:
  "sd_checked sd c s = Inr s' \<Longrightarrow> \<exists>more. sd_calls s' = sd_calls s @ more"
  by (auto dest: sd_checked_keeps)

lemma ble_evt_handler_calls:
  assumes "ble_evt_handler sd e s = Inr s'"
  shows "\<exists>more. sd_calls s' = sd_calls s @ more"
  using assms
  by (cases e) (auto split: sum.splits dest!: sd_checked_keeps)

lemma SWI2_IRQHandler_calls:
  "SWI2_IRQHandler sd evts s = Inr s' \<Longrightarrow> \<exists>more. sd_calls s' = sd_calls s @ more"
proof (induction evts arbitrary: s)
  case Nil
  then show ?case by simp
next
  case (Cons e evts)
  from Cons.prems obtain s1 where h: "ble_evt_handler sd e s = Inr s1"
    and r: "SWI2_IRQHandler sd evts s1 = Inr s'"
    by (auto split: sum.splits)
  from ble_evt_handler_calls [OF h] Cons.IH [OF r] show ?case by auto
qed

lemma preempt_keeps:
  assumes "preempt sd irqs s = Inr (s1, irqs1)"
  shows "tx s1 = tx s \<and> waited_in s1 = waited_in s \<and>
         (ring_ok RING_BUFFER_LENGTH (rx s) \<longrightarrow> ring_ok RING_BUFFER_LENGTH (rx s1)) \<and>
         (\<exists>more. sd_calls s1 = sd_calls s @ more)"
proof (cases irqs)
  case Nil
  with assms show ?thesis by (simp add: preempt_def)
next
  case (Cons evts irqs')
  with assms have h: "SWI2_IRQHandler sd evts s = Inr s1"
    by (auto simp: preempt_def split: sum.splits)
  from SWI2_IRQHandler_keeps [OF h] SWI2_IRQHandler_calls [OF h] show ?thesis by simp
qed

lemma ble_send_pending_data_calls:
  assumes "ble_send_pending_data errs s = Some (Inr (s', errs'))"
  shows "\<exists>more. sd_calls s' = sd_calls s @ more"
proof (cases "head (tx s) = tail (tx s)")
  case True
  with assms show ?thesis by (simp add: ble_send_pending_data_def)
next
  case False
  with assms obtain r ob ol where
    d: "tx_drain RING_BUFFER_LENGTH (negotiated_mtu s) (tx s)
          (replicate (unat MAX_MTU_LENGTH) 0) 0 = Inr (r, ob, ol)"
    and h: "hvx_try_again errs (s\<lparr>tx := r\<rparr>) (take (unat ol) ob) = Some (Inr (s', errs'))"
    by (auto simp: ble_send_pending_data_def split: sum.splits)
  from hvx_try_again_first_call [OF h] show ?thesis by auto
qed

subsection \<open>The blocking read\<close>

lemma rx_wait_returns:
  "rx_wait sd irqs errs s = Some (Inr (s', irqs', errs')) \<Longrightarrow>
     head (rx s') \<noteq> tail (rx s') \<and>
     (rings_ok s \<longrightarrow> rings_ok s') \<and>
     (\<exists>more. sd_calls s' = sd_calls s @ more) \<and>
     (\<exists>ws. waited_in s' = waited_in s @ ws \<and>
           (\<forall>w \<in> set ws. head (snd w) = tail (snd w)))"
proof (induction sd irqs errs s rule: rx_wait.induct)
  case (1 sd irqs errs s)
  note ret = \<open>rx_wait sd irqs errs s = Some (Inr (s', irqs', errs'))\<close>
  show ?case
  proof (cases "head (rx s) = tail (rx s)")
    case False
    with ret show ?thesis by (simp add: rx_wait.simps [of sd irqs errs s])
  next
    case empty: True
    with ret obtain s1 irqs1 s2 errs2 s3 irqs3 where
      p1: "preempt sd irqs s = Inr (s1, irqs1)"
      and snd: "ble_send_pending_data errs s1 = Some (Inr (s2, errs2))"
      and p3: "preempt sd irqs1 s2 = Inr (s3, irqs3)"
      by (auto simp: rx_wait.simps [of sd irqs errs s] split: option.splits sum.splits)
    note k1 = preempt_keeps [OF p1] and k2 = ble_send_pending_data_keeps [OF snd]
      and c2 = ble_send_pending_data_calls [OF snd] and k3 = preempt_keeps [OF p3]
    from k1 k2 k3 have ok3: "rings_ok s \<longrightarrow> rings_ok s3" by (simp add: rings_ok_def)
    from k1 k2 k3 have w3: "waited_in s3 = waited_in s" by simp
    from k1 c2 k3 obtain m3 where m3: "sd_calls s3 = sd_calls s @ m3" by auto
    show ?thesis
    proof (cases "head (tx s3) = tail (tx s3) \<and> head (rx s3) = tail (rx s3)")
      case both: True
      with ret empty p1 snd p3 obtain s4 irqs4 where
        p4: "preempt sd irqs3 s3 = Inr (s4, irqs4)"
        by (auto simp: rx_wait.simps [of sd irqs errs s] split: sum.splits)
      let ?s4 = "s4\<lparr>sd_calls := sd_calls s4 @ [Sd_app_evt_wait],
                    waited_in := waited_in s4 @ [(rx s4, tx s4)]\<rparr>"
      from ret empty p1 snd p3 both p4 obtain evts irqs5 s5 where
        i: "irqs4 = evts # irqs5"
        and h: "SWI2_IRQHandler sd evts ?s4 = Inr s5"
        and r: "rx_wait sd irqs5 errs2 s5 = Some (Inr (s', irqs', errs'))"
        by (auto simp: rx_wait.simps [of sd irqs errs s] split: list.splits sum.splits)
      note k4 = preempt_keeps [OF p4] and k5 = SWI2_IRQHandler_keeps [OF h]
        and c5 = SWI2_IRQHandler_calls [OF h]
      from "1.IH"(1) [OF empty p1 refl snd refl refl p3 refl both p4 refl i h r]
      obtain more ws where a: "head (rx s') \<noteq> tail (rx s')"
        and b: "rings_ok s5 \<longrightarrow> rings_ok s'"
        and c: "sd_calls s' = sd_calls s5 @ more"
        and d: "waited_in s' = waited_in s5 @ ws"
        and e: "\<forall>w \<in> set ws. head (snd w) = tail (snd w)"
        by blast
      from ok3 k4 k5 b have b': "rings_ok s \<longrightarrow> rings_ok s'" by (simp add: rings_ok_def)
      from m3 k4 c5 c have c': "\<exists>more. sd_calls s' = sd_calls s @ more" by auto
      from k4 both have t4: "head (tx s4) = tail (tx s4)" by simp
      from w3 k4 k5 d have d': "waited_in s' = waited_in s @ ((rx s4, tx s4) # ws)" by simp
      from e t4 have e': "\<forall>w \<in> set ((rx s4, tx s4) # ws). head (snd w) = tail (snd w)"
        by simp
      from a b' c' d' e' show ?thesis by blast
    next
      case notboth: False
      from ret empty p1 snd p3 notboth
      have r: "rx_wait sd irqs3 errs2 s3 = Some (Inr (s', irqs', errs'))"
        by (simp add: rx_wait.simps [of sd irqs errs s])
      from "1.IH"(2) [OF empty p1 refl snd refl refl p3 refl notboth r] ok3 w3 m3
      show ?thesis by auto
    qed
  qed
qed


lemma mp_hal_stdin_rx_chr_returns:
  assumes "mp_hal_stdin_rx_chr sd irqs errs s = Some (Inr (c, s', irqs', errs'))"
  obtains s1 where "rx_wait sd irqs errs s = Some (Inr (s1, irqs', errs'))"
    and "c = buffer (rx s1) ! unat (tail (rx s1))"
    and "s' = s1\<lparr>rx := (rx s1)\<lparr>tail := next_index RING_BUFFER_LENGTH (tail (rx s1))\<rparr>\<rparr>"
  using assms
  by (auto simp: mp_hal_stdin_rx_chr_def ring_read_def
           split: option.splits sum.splits prod.splits)

subsection \<open>Runs keep the rings well formed\<close>

lemma step_rings_ok: "step x s = Some s' \<Longrightarrow> rings_ok s \<Longrightarrow> rings_ok s'"
proof (cases x)
  case (Tx_strn str)
  assume "step x s = Some s'" "rings_ok s"
  with Tx_strn show ?thesis
    by (auto simp: rings_ok_def mp_hal_stdout_tx_strn_def ring_write_contents)
next
  case (Send_pending errs)
  assume a: "step x s = Some s'" "rings_ok s"
  with Send_pending obtain errs' where "ble_send_pending_data errs s = Some (Inr (s', errs'))"
    by (auto split: option.splits sum.splits)
  from ble_send_pending_data_keeps [OF this] a(2) show ?thesis
    by (simp add: rings_ok_def)
next
  case (Irq sd evts)
  assume a: "step x s = Some s'" "rings_ok s"
  with Irq have "SWI2_IRQHandler sd evts s = Inr s'"
    by (auto split: sum.splits)
  from SWI2_IRQHandler_keeps [OF this] a(2) show ?thesis
    by (simp add: rings_ok_def)
next
  case (Rx_chr sd irqs errs)
  assume a: "step x s = Some s'" "rings_ok s"
  with Rx_chr obtain c irqs' errs' where
    "mp_hal_stdin_rx_chr sd irqs errs s = Some (Inr (c, s', irqs', errs'))"
    by (auto split: option.splits sum.splits)
  then obtain s1 where w: "rx_wait sd irqs errs s = Some (Inr (s1, irqs', errs'))"
    and s': "s' = s1\<lparr>rx := (rx s1)\<lparr>tail := next_index RING_BUFFER_LENGTH (tail (rx s1))\<rparr>\<rparr>"
    by (rule mp_hal_stdin_rx_chr_returns)
  from rx_wait_returns [OF w] a(2) have ne: "head (rx s1) \<noteq> tail (rx s1)"
    and ok: "rings_ok s1" by simp_all
  from ok have "ring_ok RING_BUFFER_LENGTH (rx s1)" by (simp add: rings_ok_def)
  from ring_read_contents [OF this ne] ok s' show ?thesis
    by (simp add: rings_ok_def)
qed

lemma run_rings_ok: "run xs s = Some s' \<Longrightarrow> rings_ok s \<Longrightarrow> rings_ok s'"
proof (induction xs arbitrary: s)
  case Nil
  then show ?case by simp
next
  case (Cons x xs)
  from Cons.prems(1) obtain s1 where 1: "step x s = Some s1" and 2: "run xs s1 = Some s'"
    by (auto split: option.splits)
  from Cons.IH [OF 2 step_rings_ok [OF 1 Cons.prems(2)]] show ?case .
qed

lemma rings_ok_init_state: "rings_ok init_state"
  by (simp add: rings_ok_def init_state_def ring_ok_empty_ring RING_BUFFER_LENGTH_def)

section \<open>The claims\<close>

subsection \<open>Negotiation of the payload size\<close>

text \<open>
  Claim C4. When the handler processes an MTU exchange request with the client value
  \<open>m\<close>, and the SoftDevice accepts the reply, it has replied with
  \<^verbatim>\<open>MAX_MTU_LENGTH\<close> = 128 and has stored in \<^verbatim>\<open>negotiated_mtu\<close>, the bound of the
  sender on the size of a chunk, the smaller of 128 and \<open>m\<close> minus 3. The subtraction
  is the one of \<^verbatim>\<open>uint16_t\<close>; for \<open>m\<close> of 3 or more it is the subtraction of
  numbers. For \<open>m = 64\<close> the stored value is 61 (the witness).
\<close>

theorem mtu_request_sets_negotiated_mtu:
  assumes "\<not> assert_if (sd (Sd_ble_gatts_exchange_mtu_reply conn_handle MAX_MTU_LENGTH))"
  shows "ble_evt_handler sd (BLE_GATTS_EVT_EXCHANGE_MTU_REQUEST conn_handle m) s
           = Inr (s\<lparr>sd_calls := sd_calls s @ [Sd_ble_gatts_exchange_mtu_reply conn_handle 128],
                    negotiated_mtu := min 128 m - 3\<rparr>)
         \<and> (3 \<le> m \<longrightarrow> unat (min 128 m - 3) = min 128 (unat m) - 3)"
proof -
  have "3 \<le> m \<Longrightarrow> unat (min 128 m - 3) = min 128 (unat m) - 3"
  proof -
    assume "3 \<le> m"
    then have "3 \<le> min 128 m" by simp
    then have "unat (min 128 m - 3) = unat (min 128 m) - 3"
      by (simp add: unat_sub)
    also have "unat (min 128 m) = min 128 (unat m)"
      by (simp add: min_def word_le_nat_alt)
    finally show ?thesis .
  qed
  moreover have "(if (128::uint16_t) < m then 128 - 3 else m - 3) = min 128 m - 3"
    by (auto simp: min_def)
  ultimately show ?thesis
    using assms by (simp add: sd_checked_def MAX_MTU_LENGTH_def)
qed

theorem mtu_request_sets_negotiated_mtu_witness:
  "\<not> assert_if (sd_success (Sd_ble_gatts_exchange_mtu_reply 0 MAX_MTU_LENGTH))
   \<and> map_sum id negotiated_mtu
        (ble_evt_handler sd_success (BLE_GATTS_EVT_EXCHANGE_MTU_REQUEST 0 64) init_state) = Inr 61
   \<and> map_sum id sd_calls
        (ble_evt_handler sd_success (BLE_GATTS_EVT_EXCHANGE_MTU_REQUEST 0 64) init_state)
        = Inr [Sd_ble_gatts_exchange_mtu_reply 0 128]"
proof -
  have h: "\<not> assert_if (sd_success (Sd_ble_gatts_exchange_mtu_reply 0 MAX_MTU_LENGTH))"
    by (simp add: assert_if_def sd_success_def NRF_SUCCESS_def)
  from mtu_request_sets_negotiated_mtu [of sd_success 0 64 init_state] h show ?thesis
    by (simp add: init_state_def)
qed

text \<open>
  Claim C10. For a client value \<open>m\<close> below 3 the handler still succeeds: it checks
  no lower bound. The stored value is \<open>m - 3\<close> in 16-bit arithmetic, that is
  \<open>(m - 3) mod 2^16\<close>, which is above the 125 bytes of \<^verbatim>\<open>MAX_MTU_LENGTH - 3\<close>.
  For \<open>m = 2\<close> it is 65535 (the witness).
\<close>

theorem mtu_request_below_3_wraps:
  assumes "m < 3"
    and "\<not> assert_if (sd (Sd_ble_gatts_exchange_mtu_reply conn_handle MAX_MTU_LENGTH))"
  shows "\<exists>s'. ble_evt_handler sd (BLE_GATTS_EVT_EXCHANGE_MTU_REQUEST conn_handle m) s = Inr s'
           \<and> negotiated_mtu s' = m - 3
           \<and> uint (negotiated_mtu s') = (uint m - 3) mod 2 ^ 16
           \<and> unat (MAX_MTU_LENGTH - 3) = 125
           \<and> 125 < unat (negotiated_mtu s')"
proof -
  from assms(1) have m: "uint m < 3" by (simp add: word_less_def)
  have m0: "0 \<le> uint m" by simp
  have i: "uint (m - 3) = (uint m - 3) mod 2 ^ 16"
    by (simp add: uint_word_ariths)
  have "uint m - 3 + 65536 = uint m + 65533" by simp
  then have "(uint m - 3) mod 65536 = (uint m + 65533) mod 65536"
    by (metis mod_add_self2)
  also have "\<dots> = uint m + 65533" using m m0 by simp
  finally have "(uint m - 3) mod 65536 = uint m + 65533" .
  with i m0 have "65533 \<le> uint (m - 3)" by simp
  then have "65533 \<le> int (unat (m - 3))" by simp
  then have u: "125 < unat (m - 3)" by linarith
  from assms(1) have n: "\<not> 128 < m" by (simp add: word_less_nat_alt)
  let ?s' = "s\<lparr>sd_calls := sd_calls s @ [Sd_ble_gatts_exchange_mtu_reply conn_handle 128],
                 negotiated_mtu := m - 3\<rparr>"
  have sel: "negotiated_mtu ?s' = m - 3" by simp
  show ?thesis
  proof (intro exI conjI)
    show "ble_evt_handler sd (BLE_GATTS_EVT_EXCHANGE_MTU_REQUEST conn_handle m) s = Inr ?s'"
      using assms(2) n by (simp add: sd_checked_def MAX_MTU_LENGTH_def)
    show "negotiated_mtu ?s' = m - 3" by (rule sel)
    show "uint (negotiated_mtu ?s') = (uint m - 3) mod 2 ^ 16" unfolding sel by (rule i)
    show "unat (MAX_MTU_LENGTH - 3) = 125" by (simp add: MAX_MTU_LENGTH_def)
    show "125 < unat (negotiated_mtu ?s')" unfolding sel by (rule u)
  qed
qed

theorem mtu_request_below_3_wraps_witness:
  "(2::uint16_t) < 3
   \<and> \<not> assert_if (sd_success (Sd_ble_gatts_exchange_mtu_reply 0 MAX_MTU_LENGTH))
   \<and> map_sum id negotiated_mtu
        (ble_evt_handler sd_success (BLE_GATTS_EVT_EXCHANGE_MTU_REQUEST 0 2) init_state)
       = Inr 65535"
proof -
  have h: "\<not> assert_if (sd_success (Sd_ble_gatts_exchange_mtu_reply 0 MAX_MTU_LENGTH))"
    by (simp add: assert_if_def sd_success_def NRF_SUCCESS_def)
  have l: "(2::uint16_t) < 3" by simp
  from mtu_request_below_3_wraps [of 2 sd_success 0 init_state] l h obtain s' where
    "ble_evt_handler sd_success (BLE_GATTS_EVT_EXCHANGE_MTU_REQUEST 0 2) init_state = Inr s'"
    "negotiated_mtu s' = 2 - 3" by blast
  with l h show ?thesis by simp
qed

text \<open>
  Claim C1, as stated, fails: the case \<^verbatim>\<open>BLE_GAP_EVT_DISCONNECTED\<close> does not assign
  \<^verbatim>\<open>negotiated_mtu\<close>. After a connection, an MTU exchange with the client value 64
  and a disconnection, \<^verbatim>\<open>negotiated_mtu\<close> is 61, not the 0 it had before the exchange.
\<close>

theorem disconnect_keeps_negotiated_mtu_counterexample:
  "map_sum id negotiated_mtu
     (SWI2_IRQHandler sd_success
        [BLE_GAP_EVT_CONNECTED 0, BLE_GATTS_EVT_EXCHANGE_MTU_REQUEST 0 64,
         BLE_GAP_EVT_DISCONNECTED] init_state) = Inr 61
   \<and> negotiated_mtu init_state = 0"
  by (simp add: init_state_def sd_checked_def sd_success_def assert_if_def NRF_SUCCESS_def
        MAX_MTU_LENGTH_def)

text \<open>
  Claim C1, amended. Processing a disconnect event, when the SoftDevice accepts the
  restart of advertising, sets the connection handle to \<^verbatim>\<open>BLE_CONN_HANDLE_INVALID\<close>,
  calls \<^verbatim>\<open>sd_ble_gap_adv_start\<close> and changes nothing else: \<^verbatim>\<open>negotiated_mtu\<close>
  keeps the value it had before the event.
\<close>

theorem disconnect_keeps_negotiated_mtu:
  assumes "\<not> assert_if (sd (Sd_ble_gap_adv_start (advertising s)))"
  shows "ble_evt_handler sd BLE_GAP_EVT_DISCONNECTED s
           = Inr (s\<lparr>connection := BLE_CONN_HANDLE_INVALID,
                    sd_calls := sd_calls s @ [Sd_ble_gap_adv_start (advertising s)]\<rparr>)
         \<and> map_sum id negotiated_mtu (ble_evt_handler sd BLE_GAP_EVT_DISCONNECTED s)
           = Inr (negotiated_mtu s)"
  using assms by (simp add: sd_checked_def)

theorem disconnect_keeps_negotiated_mtu_witness:
  "\<not> assert_if (sd_success (Sd_ble_gap_adv_start (advertising (init_state\<lparr>negotiated_mtu := 61\<rparr>))))
   \<and> map_sum id negotiated_mtu
        (ble_evt_handler sd_success BLE_GAP_EVT_DISCONNECTED (init_state\<lparr>negotiated_mtu := 61\<rparr>))
       = Inr 61"
proof -
  have h: "\<not> assert_if (sd_success (Sd_ble_gap_adv_start
              (advertising (init_state\<lparr>negotiated_mtu := 61\<rparr>))))"
    by (simp add: assert_if_def sd_success_def NRF_SUCCESS_def)
  from disconnect_keeps_negotiated_mtu [of sd_success "init_state\<lparr>negotiated_mtu := 61\<rparr>"] h
  show ?thesis by simp
qed

subsection \<open>Writing to a full ring\<close>

text \<open>
  Claim C6. A ring is full when the index after the head equals the tail. On a full
  ring the write loop leaves at once, whatever bytes it is given: the array, the head
  and the tail are as before. So \<^verbatim>\<open>mp_hal_stdout_tx_strn\<close> on a full \<^verbatim>\<open>tx\<close> changes
  nothing in the state and drops its whole input, and so does the case
  \<^verbatim>\<open>BLE_GATTS_EVT_WRITE\<close> on a full \<^verbatim>\<open>rx\<close>. The source has no return value for
  the failure: the loop is left with \<^verbatim>\<open>break\<close>.
\<close>

theorem write_to_full_ring_is_dropped:
  "(next_index N (head r) = tail r \<longrightarrow> ring_write N r str = r)
   \<and> (next_index RING_BUFFER_LENGTH (head (tx s)) = tail (tx s)
        \<longrightarrow> mp_hal_stdout_tx_strn s str = s)
   \<and> (next_index RING_BUFFER_LENGTH (head (rx s)) = tail (rx s)
        \<longrightarrow> ble_evt_handler sd (BLE_GATTS_EVT_WRITE str) s = Inr s)"
  by (simp add: ring_write_full mp_hal_stdout_tx_strn_def)

theorem write_to_full_ring_is_dropped_witness:
  "next_index 4 (head \<lparr>buffer = [1, 2, 3, 0], head = 3, tail = 0\<rparr>)
     = tail \<lparr>buffer = [1, 2, 3, 0], head = 3, tail = 0\<rparr>
   \<and> ring_write 4 \<lparr>buffer = [1, 2, 3, 0], head = 3, tail = 0\<rparr> [9, 8]
       = \<lparr>buffer = [1, 2, 3, 0], head = 3, tail = 0\<rparr>
   \<and> next_index RING_BUFFER_LENGTH
        (head (tx (init_state
           \<lparr>rx := \<lparr>buffer = replicate 1068 7 @ [0], head = 1068, tail = 0\<rparr>,
            tx := \<lparr>buffer = replicate 1068 7 @ [0], head = 1068, tail = 0\<rparr>\<rparr>)))
       = tail (tx (init_state
           \<lparr>rx := \<lparr>buffer = replicate 1068 7 @ [0], head = 1068, tail = 0\<rparr>,
            tx := \<lparr>buffer = replicate 1068 7 @ [0], head = 1068, tail = 0\<rparr>\<rparr>))
   \<and> mp_hal_stdout_tx_strn
         (init_state
           \<lparr>rx := \<lparr>buffer = replicate 1068 7 @ [0], head = 1068, tail = 0\<rparr>,
            tx := \<lparr>buffer = replicate 1068 7 @ [0], head = 1068, tail = 0\<rparr>\<rparr>) [9, 8]
       = init_state
           \<lparr>rx := \<lparr>buffer = replicate 1068 7 @ [0], head = 1068, tail = 0\<rparr>,
            tx := \<lparr>buffer = replicate 1068 7 @ [0], head = 1068, tail = 0\<rparr>\<rparr>
   \<and> next_index RING_BUFFER_LENGTH
        (head (rx (init_state
           \<lparr>rx := \<lparr>buffer = replicate 1068 7 @ [0], head = 1068, tail = 0\<rparr>,
            tx := \<lparr>buffer = replicate 1068 7 @ [0], head = 1068, tail = 0\<rparr>\<rparr>)))
       = tail (rx (init_state
           \<lparr>rx := \<lparr>buffer = replicate 1068 7 @ [0], head = 1068, tail = 0\<rparr>,
            tx := \<lparr>buffer = replicate 1068 7 @ [0], head = 1068, tail = 0\<rparr>\<rparr>))
   \<and> ble_evt_handler sd_success (BLE_GATTS_EVT_WRITE [9, 8])
         (init_state
           \<lparr>rx := \<lparr>buffer = replicate 1068 7 @ [0], head = 1068, tail = 0\<rparr>,
            tx := \<lparr>buffer = replicate 1068 7 @ [0], head = 1068, tail = 0\<rparr>\<rparr>)
       = Inr (init_state
           \<lparr>rx := \<lparr>buffer = replicate 1068 7 @ [0], head = 1068, tail = 0\<rparr>,
            tx := \<lparr>buffer = replicate 1068 7 @ [0], head = 1068, tail = 0\<rparr>\<rparr>)"
proof -
  have a: "next_index 4 (head \<lparr>buffer = [1, 2, 3, 0], head = 3, tail = 0\<rparr>)
             = tail \<lparr>buffer = [1, 2, 3, 0], head = 3, tail = 0\<rparr>"
    by (simp add: next_index_def)
  have b: "next_index RING_BUFFER_LENGTH 1068 = 0"
    by (simp add: next_index_def RING_BUFFER_LENGTH_def)
  from a b
    write_to_full_ring_is_dropped
      [of 4 "\<lparr>buffer = [1, 2, 3, 0], head = 3, tail = 0\<rparr>" "[9, 8]"
          "init_state
             \<lparr>rx := \<lparr>buffer = replicate 1068 7 @ [0], head = 1068, tail = 0\<rparr>,
              tx := \<lparr>buffer = replicate 1068 7 @ [0], head = 1068, tail = 0\<rparr>\<rparr>"
          sd_success]
  show ?thesis by simp
qed

subsection \<open>The outcomes of a transmission\<close>



text \<open>
  Claim C3 does not hold of every non-empty \<^verbatim>\<open>tx\<close>. After an MTU exchange request
  with the client value 2 (\<^verbatim>\<open>negotiated_mtu\<close> = 65535) and a write of 129 bytes
  the ring is well formed and holds 129 bytes; the copy loop of the sender then stores
  at \<^verbatim>\<open>out_buffer[128]\<close>, past the end of the array, and the sender makes no transmit
  attempt, whatever the return codes would have been. Where the chunk fits, the sender
  does what the claim says (lemma \<open>congestion_retries_same_chunk\<close>).
\<close>

theorem sender_overruns_out_buffer:
  "run [Irq sd_success [BLE_GATTS_EVT_EXCHANGE_MTU_REQUEST 0 2], Tx_strn (replicate 129 65)]
       init_state
     = Some (mp_hal_stdout_tx_strn
               (init_state\<lparr>sd_calls := [Sd_ble_gatts_exchange_mtu_reply 0 128],
                           negotiated_mtu := 65535\<rparr>)
               (replicate 129 65))
   \<and> contents (tx (mp_hal_stdout_tx_strn
                      (init_state\<lparr>sd_calls := [Sd_ble_gatts_exchange_mtu_reply 0 128],
                                  negotiated_mtu := 65535\<rparr>)
                      (replicate 129 65)))
       = replicate 129 65
   \<and> ble_send_pending_data (replicate (N - 1) NRF_ERROR_RESOURCES @ NRF_SUCCESS # errs)
         (mp_hal_stdout_tx_strn
            (init_state\<lparr>sd_calls := [Sd_ble_gatts_exchange_mtu_reply 0 128],
                        negotiated_mtu := 65535\<rparr>)
            (replicate 129 65))
       = Some (Inl Out_buffer_overrun)"
proof -
  let ?s1 = "init_state\<lparr>sd_calls := [Sd_ble_gatts_exchange_mtu_reply 0 128],
                         negotiated_mtu := 65535\<rparr>"
  let ?s = "mp_hal_stdout_tx_strn ?s1 (replicate 129 65)"
  have r: "run [Irq sd_success [BLE_GATTS_EVT_EXCHANGE_MTU_REQUEST 0 2],
                Tx_strn (replicate 129 65)] init_state = Some ?s"
  proof -
    have e: "(- 1 :: uint16_t) = 65535" by simp
    have "run [Irq sd_success [BLE_GATTS_EVT_EXCHANGE_MTU_REQUEST 0 2],
               Tx_strn (replicate 129 65)] init_state
            = Some (mp_hal_stdout_tx_strn
                      (init_state\<lparr>sd_calls := [Sd_ble_gatts_exchange_mtu_reply 0 128],
                                  negotiated_mtu := - 1\<rparr>)
                      (replicate 129 65))"
      by (simp add: sd_checked_def sd_success_def assert_if_def NRF_SUCCESS_def
            MAX_MTU_LENGTH_def init_state_def)
    then show ?thesis unfolding e .
  qed
  have ok1: "ring_ok RING_BUFFER_LENGTH (tx ?s1)"
    by (simp add: init_state_def ring_ok_empty_ring RING_BUFFER_LENGTH_def)
  have c1: "contents (tx ?s1) = []" by (simp add: init_state_def contents_empty_ring)
  from ring_write_contents [OF ok1, of "replicate 129 65"] c1
  have ok: "ring_ok RING_BUFFER_LENGTH (tx ?s)" and c: "contents (tx ?s) = replicate 129 65"
    by (simp_all add: mp_hal_stdout_tx_strn_def RING_BUFFER_LENGTH_def)
  have "negotiated_mtu ?s = 65535" by (simp add: mp_hal_stdout_tx_strn_def)
  with c have "tx_chunk_length ?s = 129"
    by (simp add: tx_chunk_length_def chunk_length_def)
  then have "128 < tx_chunk_length ?s" by simp
  from ble_send_pending_data_overrun [OF ok this] r c show ?thesis by simp
qed

theorem sender_overruns_out_buffer_witness:
  "ble_send_pending_data [NRF_ERROR_RESOURCES, NRF_ERROR_RESOURCES, NRF_SUCCESS]
         (mp_hal_stdout_tx_strn
            (init_state\<lparr>sd_calls := [Sd_ble_gatts_exchange_mtu_reply 0 128],
                        negotiated_mtu := 65535\<rparr>)
            (replicate 129 65))
       = Some (Inl Out_buffer_overrun)"
  using sender_overruns_out_buffer [of 3 "[]"] by (simp add: numeral_2_eq_2)

subsection \<open>First in, first out\<close>



subsection \<open>The inbound path\<close>



subsection \<open>The blocking read\<close>




subsection \<open>Indices stay inside the arrays\<close>

text \<open>
  Claim C9. In every state that a run of the program reaches from the initial state
  (both indices 0), the head and the tail of \<^verbatim>\<open>rx\<close> and of \<^verbatim>\<open>tx\<close> are below
  \<^verbatim>\<open>RING_BUFFER_LENGTH\<close> = 1069, the length of the arrays, so that the store at the
  head and the read at the tail are inside the array, and each ring holds at most 1068
  bytes. The lemmas \<open>ring_ok_store\<close> and \<open>ring_read_contents\<close> give the same for
  every single store and read inside a loop.
\<close>

theorem ring_indices_stay_in_bounds:
  assumes "run ops init_state = Some s"
  shows "unat (head (rx s)) < 1069 \<and> unat (tail (rx s)) < 1069
         \<and> length (buffer (rx s)) = 1069 \<and> length (contents (rx s)) \<le> 1068
         \<and> unat (head (tx s)) < 1069 \<and> unat (tail (tx s)) < 1069
         \<and> length (buffer (tx s)) = 1069 \<and> length (contents (tx s)) \<le> 1068
         \<and> unat RING_BUFFER_LENGTH = 1069"
proof -
  from run_rings_ok [OF assms rings_ok_init_state]
  have r: "ring_ok RING_BUFFER_LENGTH (rx s)" and t: "ring_ok RING_BUFFER_LENGTH (tx s)"
    by (simp_all add: rings_ok_def)
  have n: "unat RING_BUFFER_LENGTH = 1069" by (simp add: RING_BUFFER_LENGTH_def)
  from length_contents_less [OF r] length_contents_less [OF t] r t n
  show ?thesis
    by (simp add: ring_ok_def word_less_nat_alt)
qed

theorem ring_indices_stay_in_bounds_witness:
  "\<exists>s. run [Tx_strn [104, 105], Irq sd_success [BLE_GATTS_EVT_WRITE [65, 66]],
             Send_pending [NRF_SUCCESS], Rx_chr sd_success [] []] init_state = Some s
       \<and> unat (head (rx s)) < 1069 \<and> unat (tail (rx s)) < 1069
       \<and> length (buffer (rx s)) = 1069 \<and> length (contents (rx s)) \<le> 1068
       \<and> unat (head (tx s)) < 1069 \<and> unat (tail (tx s)) < 1069
       \<and> length (buffer (tx s)) = 1069 \<and> length (contents (tx s)) \<le> 1068"
proof -
  have "(case run [Tx_strn [104, 105], Irq sd_success [BLE_GATTS_EVT_WRITE [65, 66]],
              Send_pending [NRF_SUCCESS], Rx_chr sd_success [] []] init_state of
            None \<Rightarrow> False | Some s \<Rightarrow> True)"
    by code_simp
  then obtain s where
    r: "run [Tx_strn [104, 105], Irq sd_success [BLE_GATTS_EVT_WRITE [65, 66]],
             Send_pending [NRF_SUCCESS], Rx_chr sd_success [] []] init_state = Some s"
    by (auto split: option.splits)
  from ring_indices_stay_in_bounds [OF r] r show ?thesis by blast
qed

end
